theory Spec2Isabelle
  imports Main "HOL-Library.Word"
begin

section \<open>Package intlist: values\<close>

text \<open>
  The package is compiled for a 64-bit platform: Go's \<open>int\<close> is a 64-bit two's
  complement integer. Addition wraps, comparison is signed (\<open>word_sless\<close>,
  \<open>word_sle\<close>), and \<open>sint\<close> reads the mathematical value.
\<close>

type_synonym go_int = "64 word"

text \<open>
  The error values that can occur: the package's sentinel \<open>ErrDone\<close>, and the
  \<open>*strconv.NumError{Func, Num, Err}\<close> values, whose \<open>Err\<close> field is
  \<open>strconv.ErrSyntax\<close> or \<open>strconv.ErrRange\<close>. A nil error is \<open>None\<close>.
\<close>

datatype num_err = ErrSyntax | ErrRange

datatype error = ErrDone | NumError string string num_err

text \<open>
  \<open>type seq struct { next int; last int; step int }\<close>. The fields \<open>next\<close> and
  \<open>last\<close> carry a suffix here, since both names are taken in Isabelle.
\<close>

record seq =
  next_v :: go_int
  last_v :: go_int
  step :: go_int

text \<open>
  \<open>type Iterator struct { seqs []seq; err error }\<close>. Only \<open>len\<close>, indexing,
  reslicing and \<open>append\<close> are applied to \<open>seqs\<close>, so the nil slice and the empty
  slice are both the empty list.
\<close>

record Iterator =
  seqs :: "seq list"
  err :: "error option"

section \<open>The standard library functions the package calls\<close>

subsection \<open>strings.Split\<close>

text \<open>
  \<open>strings.Split(s, sep)\<close> cuts \<open>s\<close> at the leftmost, non-overlapping occurrences
  of \<open>sep\<close> and returns the pieces between them, always at least one piece. The
  package calls it with the separators \<open>","\<close> and \<open>"..."\<close> only; the empty
  separator (which in Go explodes the string into characters) is not modelled and
  gives the one piece \<open>s\<close> here.
  \<open>Split_from sep cur s\<close> scans \<open>s\<close> with the piece \<open>cur\<close> collected so far.
\<close>

fun Split_from :: "string \<Rightarrow> string \<Rightarrow> string \<Rightarrow> string list" where
  "Split_from sep cur [] = [cur]"
| "Split_from sep cur (c # cs) =
     (if sep \<noteq> [] \<and> take (length sep) (c # cs) = sep
      then cur # Split_from sep [] (drop (length sep) (c # cs))
      else Split_from sep (cur @ [c]) cs)"

definition Split :: "string \<Rightarrow> string \<Rightarrow> string list" where
  "Split s sep = Split_from sep [] s"

subsection \<open>strconv.Atoi\<close>

text \<open>
  \<open>strconv.Atoi(s)\<close> is \<open>ParseInt(s, 10, 0)\<close> with the \<open>Func\<close> field of a
  returned \<open>NumError\<close> set to \<open>"Atoi"\<close> (its fast path for short strings gives
  the same results). \<open>ParseInt\<close> takes an optional sign \<open>+\<close> or \<open>-\<close> off and
  hands the rest to \<open>ParseUint\<close>, which reads the digits left to right into a
  \<open>uint64\<close>:

  \<^verbatim>\<open>
  for _, c := range []byte(s) {
      switch { case '0' <= c && c <= '9': d = c - '0' ...
               default: return 0, syntaxError(fnParseUint, s0) }
      if n >= cutoff { return maxVal, rangeError(fnParseUint, s0) }
      n *= uint64(base)
      n1 := n + uint64(d)
      if n1 < n || n1 > maxVal { return maxVal, rangeError(fnParseUint, s0) }
      n = n1
  }
  \<close>

  with \<open>cutoff = maxUint64/10 + 1\<close> and \<open>maxVal = 1<<64 - 1\<close>. In base 10 a letter
  and an underscore are syntax errors as every other non-digit is. The loop returns
  at the first failing byte, so an overflow is reported before a later byte is
  looked at.
\<close>

definition maxVal :: "64 word" where
  "maxVal = 18446744073709551615"

definition cutoff :: "64 word" where
  "cutoff = 1844674407370955162"

fun ParseUint_loop :: "64 word \<Rightarrow> string \<Rightarrow> num_err + 64 word" where
  "ParseUint_loop n [] = Inr n"
| "ParseUint_loop n (c # cs) =
     (if (of_char c :: nat) < 48 \<or> 57 < (of_char c :: nat) then Inl ErrSyntax
      else if cutoff \<le> n then Inl ErrRange
      else let n10 = n * 10; n1 = n10 + of_nat (of_char c - 48) in
        if n1 < n10 \<or> maxVal < n1 then Inl ErrRange
        else ParseUint_loop n1 cs)"

definition ParseUint :: "string \<Rightarrow> num_err + 64 word" where
  "ParseUint s = (if s = [] then Inl ErrSyntax else ParseUint_loop 0 s)"

text \<open>
  \<open>ParseInt\<close>: a syntax error of \<open>ParseUint\<close> is returned as it is; after a range
  error \<open>un\<close> is \<open>maxVal\<close>, which the range check that follows rejects again.
  The magnitude must be below \<open>1<<63\<close>, or at most \<open>1<<63\<close> under a minus sign.
\<close>

definition ParseInt :: "string \<Rightarrow> num_err + go_int" where
  "ParseInt s =
     (case s of
        [] \<Rightarrow> Inl ErrSyntax
      | c # cs \<Rightarrow>
          (let neg = (c = CHR ''-'');
               digits = (if c = CHR ''+'' \<or> c = CHR ''-'' then cs else s)
           in case ParseUint digits of
                Inl ErrSyntax \<Rightarrow> Inl ErrSyntax
              | r \<Rightarrow>
                  (let un = (case r of Inr u \<Rightarrow> u | Inl _ \<Rightarrow> maxVal)
                   in if \<not> neg \<and> 9223372036854775808 \<le> un then Inl ErrRange
                      else if neg \<and> 9223372036854775808 < un then Inl ErrRange
                      else Inr (if neg then - un else un))))"

definition Atoi :: "string \<Rightarrow> error + go_int" where
  "Atoi s = (case ParseInt s of Inl k \<Rightarrow> Inl (NumError ''Atoi'' s k) | Inr v \<Rightarrow> Inr v)"

section \<open>NewIterator\<close>

text \<open>
  The body of the loop over the items: the \<open>switch len(parts)\<close>. It gives the
  error that the loop finds after the switch, or the descriptor \<open>itemData\<close> that the
  loop appends. A single value leaves \<open>step\<close> at the zero value of \<open>int\<close>.
\<close>

definition item_seq :: "string \<Rightarrow> error + seq" where
  "item_seq item =
     (case Split item ''...'' of
        [p] \<Rightarrow>
          (case Atoi p of
             Inl e \<Rightarrow> Inl e
           | Inr v \<Rightarrow> Inr \<lparr>next_v = v, last_v = v, step = 0\<rparr>)
      | [p, q] \<Rightarrow>
          (case Atoi p of
             Inl e \<Rightarrow> Inl e
           | Inr a \<Rightarrow>
               (case Atoi q of
                  Inl e \<Rightarrow> Inl e
                | Inr b \<Rightarrow>
                    Inr \<lparr>next_v = a, last_v = b, step = (if a <s b then 1 else - 1)\<rparr>))
      | _ \<Rightarrow> Inl (NumError ''NewIterator'' item ErrSyntax))"

text \<open>
  The loop \<open>for _, item := range items\<close> with the descriptors built so far. On the
  first error it sets \<open>seqs = nil\<close> and breaks.
\<close>

fun NewIterator_loop :: "string list \<Rightarrow> seq list \<Rightarrow> seq list \<times> error option" where
  "NewIterator_loop [] acc = (acc, None)"
| "NewIterator_loop (item # items) acc =
     (case item_seq item of
        Inl e \<Rightarrow> ([], Some e)
      | Inr itemData \<Rightarrow> NewIterator_loop items (acc @ [itemData]))"

definition NewIterator :: "string \<Rightarrow> Iterator" where
  "NewIterator spec =
     (let items = Split spec '','' in
      if length items = 1 \<and> items ! 0 = [] then \<lparr>seqs = [], err = None\<rparr>
      else (case NewIterator_loop items [] of (s, e) \<Rightarrow> \<lparr>seqs = s, err = e\<rparr>))"

section \<open>Next, Err and Parse\<close>

text \<open>
  \<open>Next\<close> panics, or returns \<open>(int, error)\<close> and leaves the iterator changed. A
  panic is \<open>Inl\<close> of its message; it is raised before any field is written.
\<close>

definition Next :: "Iterator \<Rightarrow> string + ((go_int \<times> error option) \<times> Iterator)" where
  "Next i =
     (case err i of
        Some e \<Rightarrow>
          (if e = ErrDone then Inl ''Next() called again after returning ErrDone.''
           else Inl ''Next() called on invalid iterator.'')
      | None \<Rightarrow>
          (case seqs i of
             [] \<Rightarrow> Inr ((0, Some ErrDone), i\<lparr>err := Some ErrDone\<rparr>)
           | item # rest \<Rightarrow>
               (let val = next_v item in
                if val = last_v item then Inr ((val, None), i\<lparr>seqs := rest\<rparr>)
                else Inr ((val, None),
                          i\<lparr>seqs := item\<lparr>next_v := next_v item + step item\<rparr> # rest\<rparr>))))"

text \<open>\<open>Err\<close> has a pointer receiver too: it returns the slot and the iterator.\<close>

definition Err :: "Iterator \<Rightarrow> error option \<times> Iterator" where
  "Err i = (err i, i)"

text \<open>
  The \<open>for\<close> loop of \<open>Parse\<close> has no bound of its own: it runs until \<open>Next\<close>
  returns \<open>ErrDone\<close>. It is a partial function, \<open>None\<close> when it runs forever;
  \<open>Some (Inl msg)\<close> is a panic of \<open>Next\<close> that ends it.
\<close>

partial_function (option) Parse_loop ::
  "Iterator \<Rightarrow> go_int list \<Rightarrow> (string + go_int list) option" where
  "Parse_loop it result =
     (case Next it of
        Inl msg \<Rightarrow> Some (Inl msg)
      | Inr ((val, e), it') \<Rightarrow>
          (if e = Some ErrDone then Some (Inr result)
           else Parse_loop it' (result @ [val])))"

text \<open>
  \<open>Parse\<close> returns \<open>([]int, error)\<close>; the nil slice is \<open>None\<close>, and the slice
  \<open>result\<close>, which starts as \<open>[]int{}\<close>, is \<open>Some\<close> of its elements.
\<close>

definition Parse :: "string \<Rightarrow> (string + (go_int list option \<times> error option)) option" where
  "Parse spec =
     (let it = NewIterator spec in
      if fst (Err it) \<noteq> None then Some (Inr (None, fst (Err it)))
      else (case Parse_loop it [] of
              None \<Rightarrow> None
            | Some (Inl msg) \<Rightarrow> Some (Inl msg)
            | Some (Inr result) \<Rightarrow> Some (Inr (Some result, None))))"

section \<open>What a specification denotes\<close>

text \<open>
  The integers of the run from \<open>a\<close> to \<open>b\<close>, both included: ascending when
  \<open>a \<le> b\<close>, descending otherwise. These are mathematical integers.
\<close>

definition run_ints :: "int \<Rightarrow> int \<Rightarrow> int list" where
  "run_ints a b = (if a \<le> b then [a..b] else rev [b..a])"

text \<open>
  The integers that one item denotes: the value of a single literal, or the run
  between the two literals of a range. An item that is neither denotes nothing.
\<close>

definition item_ints :: "string \<Rightarrow> int list" where
  "item_ints item =
     (case Split item ''...'' of
        [p] \<Rightarrow> (case Atoi p of Inr v \<Rightarrow> [sint v] | Inl _ \<Rightarrow> [])
      | [p, q] \<Rightarrow>
          (case (Atoi p, Atoi q) of
             (Inr a, Inr b) \<Rightarrow> run_ints (sint a) (sint b)
           | _ \<Rightarrow> [])
      | _ \<Rightarrow> [])"

text \<open>The integers that a descriptor still has to emit.\<close>

definition seq_ints :: "seq \<Rightarrow> int list" where
  "seq_ints s = run_ints (sint (next_v s)) (sint (last_v s))"

text \<open>
  The invariant of a descriptor: \<open>step\<close> points from \<open>next\<close> towards \<open>last\<close>, or
  it is the zero value and the descriptor is a single integer.
\<close>

definition seq_ok :: "seq \<Rightarrow> bool" where
  "seq_ok s =
     ((step s = 1 \<and> next_v s \<le>s last_v s)
      \<or> (step s = - 1 \<and> last_v s \<le>s next_v s)
      \<or> (step s = 0 \<and> next_v s = last_v s))"

section \<open>Callers of an iterator\<close>

text \<open>
  A caller holds an iterator and calls \<open>Next\<close> and \<open>Err\<close> on it in any order.
  \<open>after_call\<close> is the iterator after one call. A call of \<open>Next\<close> that panics
  has written nothing, so a caller that recovers from the panic holds the iterator as
  it was.
\<close>

datatype call = CallNext | CallErr

definition after_call :: "call \<Rightarrow> Iterator \<Rightarrow> Iterator" where
  "after_call c i =
     (case c of
        CallErr \<Rightarrow> snd (Err i)
      | CallNext \<Rightarrow> (case Next i of Inl msg \<Rightarrow> i | Inr (r, i') \<Rightarrow> i'))"

definition after_calls :: "call list \<Rightarrow> Iterator \<Rightarrow> Iterator" where
  "after_calls cs i = fold after_call cs i"

text \<open>The three states of the error slot.\<close>

datatype phase = Ready | Invalid | Done

definition phase_of :: "Iterator \<Rightarrow> phase" where
  "phase_of i =
     (case err i of
        None \<Rightarrow> Ready
      | Some ErrDone \<Rightarrow> Done
      | Some (NumError f n k) \<Rightarrow> Invalid)"

text \<open>
  \<open>Next_calls n i\<close>: \<open>n\<close> calls of \<open>Next\<close> in a row, each of which returns a
  value with a nil error. It gives the values in the order of the calls and the
  iterator after the last call, and \<open>None\<close> if one of the calls panics or returns
  \<open>ErrDone\<close>.
\<close>

fun Next_calls :: "nat \<Rightarrow> Iterator \<Rightarrow> (go_int list \<times> Iterator) option" where
  "Next_calls 0 i = Some ([], i)"
| "Next_calls (Suc n) i =
     (case Next i of
        Inr ((val, None), i') \<Rightarrow>
          (case Next_calls n i' of
             Some (vals, i'') \<Rightarrow> Some (val # vals, i'')
           | None \<Rightarrow> None)
      | _ \<Rightarrow> None)"

section \<open>Decimal literals\<close>

text \<open>A decimal digit, and the value of a string of digits read after the value \<open>n\<close>.\<close>

definition digit :: "char \<Rightarrow> bool" where
  "digit c = (48 \<le> (of_char c :: nat) \<and> (of_char c :: nat) \<le> 57)"

fun digits_val :: "nat \<Rightarrow> string \<Rightarrow> nat" where
  "digits_val n [] = n"
| "digits_val n (c # cs) = digits_val (n * 10 + (of_char c - 48)) cs"

section \<open>Facts about 64-bit integers\<close>

lemma sint_eqD: "sint (a :: go_int) = sint b \<Longrightarrow> a = b"
  by (rule signed_word_eqI)

lemma sint_succ:
  fixes a b :: go_int
  assumes "a <s b"
  shows "sint (a + 1) = sint a + 1"
proof -
  have "sint a < sint b" using assms by (simp add: word_sless_alt)
  moreover have "sint b < 2 ^ 63" using sint_lt [of b] by simp
  moreover have "- (2 ^ 63) \<le> sint a" using sint_ge [of a] by simp
  ultimately have "signed_take_bit 63 (sint a + 1) = sint a + 1"
    by (simp add: signed_take_bit_int_eq_self)
  then show ?thesis by (simp add: sint_word_ariths)
qed

lemma sint_pred:
  fixes a b :: go_int
  assumes "b <s a"
  shows "sint (a + - 1) = sint a - 1"
proof -
  have "sint b < sint a" using assms by (simp add: word_sless_alt)
  moreover have "sint a < 2 ^ 63" using sint_lt [of a] by simp
  moreover have "- (2 ^ 63) \<le> sint b" using sint_ge [of b] by simp
  ultimately have "signed_take_bit 63 (sint a - 1) = sint a - 1"
    by (simp add: signed_take_bit_int_eq_self)
  then show ?thesis by (simp add: sint_word_ariths)
qed

lemma sle_neq_sless:
  fixes a b :: go_int
  assumes "a \<le>s b" and "a \<noteq> b"
  shows "a <s b"
proof -
  have "sint a \<le> sint b" using assms(1) by (simp add: word_sle_eq)
  moreover have "sint a \<noteq> sint b" using assms(2) sint_eqD by blast
  ultimately show ?thesis by (simp add: word_sless_alt)
qed

lemma not_sless_sle: "\<not> a <s b \<Longrightarrow> b \<le>s (a :: go_int)"
  by (simp add: word_sless_alt word_sle_eq)

lemma unat_of_nat_64: "m < 2 ^ 64 \<Longrightarrow> unat (of_nat m :: 64 word) = m"
  by (simp add: unat_of_nat)

section \<open>Runs and descriptors\<close>

lemma run_ints_same: "run_ints a a = [a]"
  by (simp add: run_ints_def)

lemma run_ints_up: "a < b \<Longrightarrow> run_ints a b = a # run_ints (a + 1) b"
  by (simp add: run_ints_def upto_rec1)

lemma run_ints_down: "b < a \<Longrightarrow> run_ints a b = a # run_ints (a - 1) b"
  by (simp add: run_ints_def upto_rec2)

lemma seq_ints_done: "next_v s = last_v s \<Longrightarrow> seq_ints s = [sint (next_v s)]"
  by (simp add: seq_ints_def run_ints_same)

lemma seq_ints_nonempty: "seq_ints s \<noteq> []"
  by (simp add: seq_ints_def run_ints_def)

lemma seq_ok_cases:
  assumes "seq_ok s" and "next_v s \<noteq> last_v s"
  obtains (up) "next_v s <s last_v s" "step s = 1"
    | (down) "last_v s <s next_v s" "step s = - 1"
proof -
  from assms(1) consider "step s = 1" "next_v s \<le>s last_v s"
    | "step s = - 1" "last_v s \<le>s next_v s"
    | "step s = 0" "next_v s = last_v s"
    unfolding seq_ok_def by blast
  then show thesis
  proof cases
    case 1
    then show thesis using assms(2) up sle_neq_sless by blast
  next
    case 2
    then show thesis using assms(2) down sle_neq_sless [of "last_v s" "next_v s"] by auto
  next
    case 3
    then show thesis using assms(2) by simp
  qed
qed

lemma seq_step_up:
  assumes "next_v s <s last_v s" and "step s = 1"
  shows "seq_ok (s\<lparr>next_v := next_v s + step s\<rparr>)"
    and "seq_ints s = sint (next_v s) # seq_ints (s\<lparr>next_v := next_v s + step s\<rparr>)"
    and "sint (next_v s + step s) = sint (next_v s) + 1"
proof -
  have lt: "sint (next_v s) < sint (last_v s)" using assms(1) by (simp add: word_sless_alt)
  have s1: "sint (next_v s + 1) = sint (next_v s) + 1" using assms(1) by (rule sint_succ)
  have "next_v s + 1 \<le>s last_v s" using lt s1 by (simp add: word_sle_eq)
  then show "seq_ok (s\<lparr>next_v := next_v s + step s\<rparr>)"
    using assms(2) by (simp add: seq_ok_def)
  show "seq_ints s = sint (next_v s) # seq_ints (s\<lparr>next_v := next_v s + step s\<rparr>)"
    using assms(2) lt s1 by (simp add: seq_ints_def run_ints_up)
  show "sint (next_v s + step s) = sint (next_v s) + 1"
    using assms(2) s1 by simp
qed

lemma seq_step_down:
  assumes "last_v s <s next_v s" and "step s = - 1"
  shows "seq_ok (s\<lparr>next_v := next_v s + step s\<rparr>)"
    and "seq_ints s = sint (next_v s) # seq_ints (s\<lparr>next_v := next_v s + step s\<rparr>)"
    and "sint (next_v s + step s) = sint (next_v s) - 1"
proof -
  have lt: "sint (last_v s) < sint (next_v s)" using assms(1) by (simp add: word_sless_alt)
  have s1: "sint (next_v s + - 1) = sint (next_v s) - 1" using assms(1) by (rule sint_pred)
  have "last_v s \<le>s next_v s + - 1" using lt s1 by (simp add: word_sle_eq)
  then show "seq_ok (s\<lparr>next_v := next_v s + step s\<rparr>)"
    using assms(2) by (simp add: seq_ok_def)
  show "seq_ints s = sint (next_v s) # seq_ints (s\<lparr>next_v := next_v s + step s\<rparr>)"
    using assms(2) lt s1 by (simp add: seq_ints_def run_ints_down)
  show "sint (next_v s + step s) = sint (next_v s) - 1"
    using assms(2) s1 by simp
qed

lemma seq_step_ok:
  assumes "seq_ok s" and "next_v s \<noteq> last_v s"
  shows "seq_ok (s\<lparr>next_v := next_v s + step s\<rparr>)"
    and "seq_ints s = sint (next_v s) # seq_ints (s\<lparr>next_v := next_v s + step s\<rparr>)"
  using assms by (auto elim!: seq_ok_cases intro: seq_step_up(1,2) seq_step_down(1,2))

section \<open>Next\<close>

lemma Next_invalid: "err i = Some e \<Longrightarrow> e \<noteq> ErrDone \<Longrightarrow>
    Next i = Inl ''Next() called on invalid iterator.''"
  by (simp add: Next_def)

lemma Next_after_done: "err i = Some ErrDone \<Longrightarrow>
    Next i = Inl ''Next() called again after returning ErrDone.''"
  by (simp add: Next_def)

lemma Next_empty: "err i = None \<Longrightarrow> seqs i = [] \<Longrightarrow>
    Next i = Inr ((0, Some ErrDone), i\<lparr>err := Some ErrDone\<rparr>)"
  by (simp add: Next_def)

lemma Next_last: "err i = None \<Longrightarrow> seqs i = item # rest \<Longrightarrow> next_v item = last_v item \<Longrightarrow>
    Next i = Inr ((next_v item, None), i\<lparr>seqs := rest\<rparr>)"
  by (simp add: Next_def Let_def)

lemma Next_more: "err i = None \<Longrightarrow> seqs i = item # rest \<Longrightarrow> next_v item \<noteq> last_v item \<Longrightarrow>
    Next i = Inr ((next_v item, None),
                  i\<lparr>seqs := item\<lparr>next_v := next_v item + step item\<rparr> # rest\<rparr>)"
  by (simp add: Next_def Let_def)

lemma Next_returns:
  assumes "Next i = Inr ((v, e), i')"
  shows "err i = None"
    and "e = None \<and> err i' = None \<or> e = Some ErrDone \<and> err i' = Some ErrDone"
  using assms
  by (auto simp: Next_def Let_def split: option.splits list.splits if_splits)

section \<open>Driving an iterator to its end\<close>

lemma Parse_loop_collects:
  assumes "err it = None" and "\<forall>s \<in> set (seqs it). seq_ok s"
  shows "\<exists>r. Parse_loop it acc = Some (Inr r) \<and>
             map sint r = map sint acc @ concat (map seq_ints (seqs it))"
  using assms
proof (induction "length (concat (map seq_ints (seqs it)))" arbitrary: it acc rule: less_induct)
  case less
  show ?case
  proof (cases "seqs it")
    case Nil
    then show ?thesis
      using less.prems by (subst Parse_loop.simps) (simp add: Next_empty)
  next
    case (Cons item rest)
    show ?thesis
    proof (cases "next_v item = last_v item")
      case True
      let ?it' = "it\<lparr>seqs := rest\<rparr>"
      have n: "Next it = Inr ((next_v item, None), ?it')"
        using less.prems(1) Cons True by (rule Next_last)
      have "length (concat (map seq_ints (seqs ?it'))) < length (concat (map seq_ints (seqs it)))"
        using Cons seq_ints_nonempty [of item] by simp
      moreover have "err ?it' = None" using less.prems(1) by simp
      moreover have "\<forall>s \<in> set (seqs ?it'). seq_ok s" using less.prems(2) Cons by simp
      ultimately obtain r where
        r: "Parse_loop ?it' (acc @ [next_v item]) = Some (Inr r)"
           "map sint r = map sint (acc @ [next_v item]) @ concat (map seq_ints (seqs ?it'))"
        using less.hyps by blast
      have "Parse_loop it acc = Parse_loop ?it' (acc @ [next_v item])"
        by (subst Parse_loop.simps) (simp add: n)
      then show ?thesis using r Cons True by (simp add: seq_ints_done)
    next
      case False
      let ?item' = "item\<lparr>next_v := next_v item + step item\<rparr>"
      let ?it' = "it\<lparr>seqs := ?item' # rest\<rparr>"
      have ok: "seq_ok item" using less.prems(2) Cons by simp
      have ok': "seq_ok ?item'" using ok False by (rule seq_step_ok(1))
      have ints: "seq_ints item = sint (next_v item) # seq_ints ?item'"
        using ok False by (rule seq_step_ok(2))
      have n: "Next it = Inr ((next_v item, None), ?it')"
        using less.prems(1) Cons False by (rule Next_more)
      have "length (concat (map seq_ints (seqs ?it'))) < length (concat (map seq_ints (seqs it)))"
        using Cons ints by simp
      moreover have "err ?it' = None" using less.prems(1) by simp
      moreover have "\<forall>s \<in> set (seqs ?it'). seq_ok s" using less.prems(2) Cons ok' by simp
      ultimately obtain r where
        r: "Parse_loop ?it' (acc @ [next_v item]) = Some (Inr r)"
           "map sint r = map sint (acc @ [next_v item]) @ concat (map seq_ints (seqs ?it'))"
        using less.hyps by blast
      have "Parse_loop it acc = Parse_loop ?it' (acc @ [next_v item])"
        by (subst Parse_loop.simps) (simp add: n)
      then show ?thesis using r Cons ints by simp
    qed
  qed
qed

lemma Next_calls_collects:
  assumes "err it = None" and "\<forall>s \<in> set (seqs it). seq_ok s"
    and "n = length (concat (map seq_ints (seqs it)))"
  shows "\<exists>vals it'. Next_calls n it = Some (vals, it') \<and>
           map sint vals = concat (map seq_ints (seqs it)) \<and>
           seqs it' = [] \<and> err it' = None"
  using assms
proof (induction n arbitrary: it)
  case 0
  then have "seqs it = []"
    using seq_ints_nonempty by (cases "seqs it") auto
  then show ?case using "0.prems"(1) by simp
next
  case (Suc n)
  then obtain item rest where Cons: "seqs it = item # rest"
    by (cases "seqs it") auto
  show ?case
  proof (cases "next_v item = last_v item")
    case True
    let ?it' = "it\<lparr>seqs := rest\<rparr>"
    have nx: "Next it = Inr ((next_v item, None), ?it')"
      using Suc.prems(1) Cons True by (rule Next_last)
    have "n = length (concat (map seq_ints (seqs ?it')))"
      using Suc.prems(3) Cons True by (simp add: seq_ints_done)
    moreover have "err ?it' = None" using Suc.prems(1) by simp
    moreover have "\<forall>s \<in> set (seqs ?it'). seq_ok s" using Suc.prems(2) Cons by simp
    ultimately obtain vals it'' where
      "Next_calls n ?it' = Some (vals, it'')"
      "map sint vals = concat (map seq_ints (seqs ?it'))" "seqs it'' = []" "err it'' = None"
      using Suc.IH by blast
    then show ?thesis using nx Cons True by (simp add: seq_ints_done)
  next
    case False
    let ?item' = "item\<lparr>next_v := next_v item + step item\<rparr>"
    let ?it' = "it\<lparr>seqs := ?item' # rest\<rparr>"
    have ok: "seq_ok item" using Suc.prems(2) Cons by simp
    have ok': "seq_ok ?item'" using ok False by (rule seq_step_ok(1))
    have ints: "seq_ints item = sint (next_v item) # seq_ints ?item'"
      using ok False by (rule seq_step_ok(2))
    have nx: "Next it = Inr ((next_v item, None), ?it')"
      using Suc.prems(1) Cons False by (rule Next_more)
    have "n = length (concat (map seq_ints (seqs ?it')))"
      using Suc.prems(3) Cons ints by simp
    moreover have "err ?it' = None" using Suc.prems(1) by simp
    moreover have "\<forall>s \<in> set (seqs ?it'). seq_ok s" using Suc.prems(2) Cons ok' by simp
    ultimately obtain vals it'' where
      "Next_calls n ?it' = Some (vals, it'')"
      "map sint vals = concat (map seq_ints (seqs ?it'))" "seqs it'' = []" "err it'' = None"
      using Suc.IH by blast
    then show ?thesis using nx Cons ints by simp
  qed
qed

section \<open>Calls in any order\<close>

lemma after_call_absorbing: "err i \<noteq> None \<Longrightarrow> after_call c i = i"
  by (cases c) (auto simp: after_call_def Err_def Next_def)

lemma after_calls_absorbing: "err i \<noteq> None \<Longrightarrow> after_calls cs i = i"
  by (induction cs) (simp_all add: after_calls_def after_call_absorbing)

lemma after_call_seq_ok:
  assumes "\<forall>s \<in> set (seqs i). seq_ok s"
  shows "\<forall>s \<in> set (seqs (after_call c i)). seq_ok s"
proof (cases c)
  case CallErr
  then show ?thesis using assms by (simp add: after_call_def Err_def)
next
  case CallNext
  show ?thesis
  proof (cases "err i")
    case (Some e)
    then show ?thesis using assms by (simp add: after_call_absorbing)
  next
    case None
    show ?thesis
    proof (cases "seqs i")
      case Nil
      then show ?thesis using None CallNext by (simp add: after_call_def Next_empty)
    next
      case (Cons item rest)
      show ?thesis
      proof (cases "next_v item = last_v item")
        case True
        then show ?thesis
          using assms None Cons CallNext by (simp add: after_call_def Next_last)
      next
        case False
        have "seq_ok (item\<lparr>next_v := next_v item + step item\<rparr>)"
          using assms Cons False by (simp add: seq_step_ok(1))
        then show ?thesis
          using assms None Cons False CallNext by (simp add: after_call_def Next_more)
      qed
    qed
  qed
qed

lemma after_calls_seq_ok:
  "\<forall>s \<in> set (seqs i). seq_ok s \<Longrightarrow> \<forall>s \<in> set (seqs (after_calls cs i)). seq_ok s"
proof (induction cs arbitrary: i)
  case Nil
  then show ?case by (simp add: after_calls_def)
next
  case (Cons c cs)
  have "\<forall>s \<in> set (seqs (after_call c i)). seq_ok s"
    using Cons.prems by (rule after_call_seq_ok)
  then have "\<forall>s \<in> set (seqs (after_calls cs (after_call c i))). seq_ok s"
    by (rule Cons.IH)
  then show ?case by (simp add: after_calls_def)
qed

lemma phase_of_after_call:
  "phase_of i = Ready \<Longrightarrow> phase_of (after_call c i) = Ready \<or> phase_of (after_call c i) = Done"
  by (cases c)
     (auto simp: phase_of_def after_call_def Err_def Next_def Let_def
           split: option.splits list.splits error.splits)

lemma phase_of_not_Ready: "phase_of i \<noteq> Ready \<Longrightarrow> err i \<noteq> None"
  by (auto simp: phase_of_def split: option.splits)

section \<open>Split\<close>

lemma Split_from_nonempty: "Split_from sep cur s \<noteq> []"
  by (induction sep cur s rule: Split_from.induct) auto

lemma Split_from_single: "Split_from sep cur s = [x] \<Longrightarrow> x = cur @ s"
proof (induction sep cur s rule: Split_from.induct)
  case (1 sep cur)
  then show ?case by simp
next
  case (2 sep cur c cs)
  show ?case
  proof (cases "sep \<noteq> [] \<and> take (length sep) (c # cs) = sep")
    case True
    then have "Split_from sep [] (drop (length sep) (c # cs)) = []"
      using "2.prems" by simp
    then show ?thesis using Split_from_nonempty by blast
  next
    case False
    then have "Split_from sep (cur @ [c]) cs = [x]" using "2.prems" by auto
    then have "x = (cur @ [c]) @ cs" using False "2.IH"(2) by blast
    then show ?thesis by simp
  qed
qed

lemma Split_single_empty: "Split spec sep = [[]] \<Longrightarrow> spec = []"
  using Split_from_single [of sep "[]" spec "[]"] by (simp add: Split_def)

lemma Split_empty: "Split [] sep = [[]]"
  by (simp add: Split_def)

section \<open>Items\<close>

lemma Atoi_error: "Atoi s = Inl e \<Longrightarrow> \<exists>k. e = NumError ''Atoi'' s k"
  by (auto simp: Atoi_def split: sum.splits)

lemma Atoi_empty: "Atoi [] = Inl (NumError ''Atoi'' [] ErrSyntax)"
  by (simp add: Atoi_def ParseInt_def)

lemma item_seq_one:
  "Split item ''...'' = [p] \<Longrightarrow>
   item_seq item =
     (case Atoi p of Inl e \<Rightarrow> Inl e | Inr v \<Rightarrow> Inr \<lparr>next_v = v, last_v = v, step = 0\<rparr>)"
  by (simp add: item_seq_def)

lemma item_seq_two:
  "Split item ''...'' = [p, q] \<Longrightarrow>
   item_seq item =
     (case Atoi p of
        Inl e \<Rightarrow> Inl e
      | Inr a \<Rightarrow>
          (case Atoi q of
             Inl e \<Rightarrow> Inl e
           | Inr b \<Rightarrow> Inr \<lparr>next_v = a, last_v = b, step = (if a <s b then 1 else - 1)\<rparr>))"
  by (simp add: item_seq_def)


lemma item_seq_error: "item_seq item = Inl e \<Longrightarrow> \<exists>f n k. e = NumError f n k"
  by (auto simp: item_seq_def split: list.splits sum.splits dest: Atoi_error)

lemma item_seq_empty: "item_seq [] = Inl (NumError ''Atoi'' [] ErrSyntax)"
  by (simp add: item_seq_one [OF Split_empty] Atoi_empty)

lemma item_ints_empty: "item_ints [] = []"
  by (simp add: item_ints_def Split_empty Atoi_empty)

lemma item_seq_ok:
  assumes "item_seq i = Inr d"
  shows "seq_ok d" and "seq_ints d = item_ints i"
  using assms not_sless_sle
  by (auto simp: item_seq_def item_ints_def seq_ok_def seq_ints_def run_ints_same
                 word_sless_alt word_sle_eq
           split: list.splits sum.splits if_splits)

section \<open>The loop of NewIterator\<close>

lemma NewIterator_loop_first_error:
  "\<forall>i \<in> set pre. \<exists>d. item_seq i = Inr d \<Longrightarrow> item_seq bad = Inl e \<Longrightarrow>
   NewIterator_loop (pre @ bad # post) acc = ([], Some e)"
  by (induction pre arbitrary: acc) auto

lemma NewIterator_loop_None:
  "NewIterator_loop items acc = (s, None) \<Longrightarrow>
   \<exists>ds. s = acc @ ds \<and> list_all2 (\<lambda>i d. item_seq i = Inr d) items ds"
proof (induction items arbitrary: acc)
  case Nil
  then show ?case by simp
next
  case (Cons item items)
  then obtain d where d: "item_seq item = Inr d"
    by (cases "item_seq item") auto
  with Cons.prems have "NewIterator_loop items (acc @ [d]) = (s, None)" by simp
  then obtain ds where "s = (acc @ [d]) @ ds"
      "list_all2 (\<lambda>i d. item_seq i = Inr d) items ds"
    using Cons.IH by blast
  then show ?case using d by (intro exI [of _ "d # ds"]) simp
qed

lemma NewIterator_loop_Some:
  "NewIterator_loop items acc = (s, Some e) \<Longrightarrow>
   s = [] \<and> (\<exists>pre bad post. items = pre @ bad # post \<and>
     (\<forall>i \<in> set pre. \<exists>d. item_seq i = Inr d) \<and> item_seq bad = Inl e)"
proof (induction items arbitrary: acc)
  case Nil
  then show ?case by simp
next
  case (Cons item items)
  show ?case
  proof (cases "item_seq item")
    case (Inl e')
    with Cons.prems have "s = []" "e' = e" by simp_all
    moreover have "item # items = [] @ item # items" by simp
    ultimately show ?thesis using Inl by fastforce
  next
    case (Inr d)
    with Cons.prems have "NewIterator_loop items (acc @ [d]) = (s, Some e)" by simp
    then obtain pre bad post where "s = []" "items = pre @ bad # post"
       "\<forall>i \<in> set pre. \<exists>d. item_seq i = Inr d" "item_seq bad = Inl e"
      using Cons.IH by blast
    then have "item # items = (item # pre) @ bad # post"
      "\<forall>i \<in> set (item # pre). \<exists>d. item_seq i = Inr d"
      using Inr by simp_all
    then show ?thesis using \<open>s = []\<close> \<open>item_seq bad = Inl e\<close> by blast
  qed
qed

lemma list_all2_item_seq:
  assumes "list_all2 (\<lambda>i d. item_seq i = Inr d) items ds"
  shows "\<forall>d \<in> set ds. seq_ok d" and "concat (map seq_ints ds) = concat (map item_ints items)"
  using assms by (induction items ds rule: list_all2_induct) (simp_all add: item_seq_ok)

section \<open>NewIterator and Parse\<close>

lemma NewIterator_empty: "NewIterator [] = \<lparr>seqs = [], err = None\<rparr>"
  by (simp add: NewIterator_def Split_empty)

lemma NewIterator_nonempty:
  assumes "spec \<noteq> []"
  shows "NewIterator spec =
    \<lparr>seqs = fst (NewIterator_loop (Split spec '','') []),
     err = snd (NewIterator_loop (Split spec '','') [])\<rparr>"
proof -
  have "Split spec '','' \<noteq> [[]]" using assms Split_single_empty by blast
  then have "\<not> (length (Split spec '','') = 1 \<and> Split spec '','' ! 0 = [])"
    by (cases "Split spec '',''") auto
  then show ?thesis by (auto simp: NewIterator_def Let_def split: prod.splits)
qed

lemma NewIterator_first_error:
  assumes "spec \<noteq> []" and "Split spec '','' = pre @ bad # post"
    and "\<forall>i \<in> set pre. \<exists>d. item_seq i = Inr d" and "item_seq bad = Inl e"
  shows "NewIterator spec = \<lparr>seqs = [], err = Some e\<rparr>"
  using NewIterator_loop_first_error [OF assms(3,4), of post "[]"]
  by (simp add: NewIterator_nonempty [OF assms(1)] assms(2))

lemma NewIterator_error:
  assumes "err (NewIterator spec) = Some e"
  shows "NewIterator spec = \<lparr>seqs = [], err = Some e\<rparr>"
    and "\<exists>pre bad post. Split spec '','' = pre @ bad # post \<and>
           (\<forall>i \<in> set pre. \<exists>d. item_seq i = Inr d) \<and> item_seq bad = Inl e"
    and "\<exists>f n k. e = NumError f n k"
proof -
  have ne: "spec \<noteq> []" using assms by (auto simp: NewIterator_empty)
  obtain s where l: "NewIterator_loop (Split spec '','') [] = (s, Some e)"
    using assms by (cases "NewIterator_loop (Split spec '','') []")
      (simp add: NewIterator_nonempty [OF ne])
  note r = NewIterator_loop_Some [OF l]
  show "NewIterator spec = \<lparr>seqs = [], err = Some e\<rparr>"
    using r l by (simp add: NewIterator_nonempty [OF ne])
  show "\<exists>pre bad post. Split spec '','' = pre @ bad # post \<and>
           (\<forall>i \<in> set pre. \<exists>d. item_seq i = Inr d) \<and> item_seq bad = Inl e"
    using r by blast
  then show "\<exists>f n k. e = NumError f n k"
    using item_seq_error by blast
qed

lemma NewIterator_valid:
  assumes "err (NewIterator spec) = None"
  shows "\<forall>s \<in> set (seqs (NewIterator spec)). seq_ok s"
    and "concat (map seq_ints (seqs (NewIterator spec))) =
         concat (map item_ints (Split spec '',''))"
proof -
  have "(\<forall>s \<in> set (seqs (NewIterator spec)). seq_ok s) \<and>
    concat (map seq_ints (seqs (NewIterator spec))) = concat (map item_ints (Split spec '',''))"
  proof (cases "spec = []")
    case True
    then show ?thesis by (simp add: NewIterator_empty Split_empty item_ints_empty)
  next
    case False
    obtain s e where l: "NewIterator_loop (Split spec '','') [] = (s, e)"
      by (cases "NewIterator_loop (Split spec '','') []")
    with assms have "e = None" and s: "seqs (NewIterator spec) = s"
      by (simp_all add: NewIterator_nonempty [OF False])
    then obtain ds where "s = [] @ ds"
        "list_all2 (\<lambda>i d. item_seq i = Inr d) (Split spec '','') ds"
      using l NewIterator_loop_None by blast
    then show ?thesis using s list_all2_item_seq [of "Split spec '',''" ds] by simp
  qed
  then show "\<forall>s \<in> set (seqs (NewIterator spec)). seq_ok s"
    and "concat (map seq_ints (seqs (NewIterator spec))) =
         concat (map item_ints (Split spec '',''))"
    by simp_all
qed

lemma Parse_valid:
  assumes "err (NewIterator spec) = None"
  shows "\<exists>r. Parse spec = Some (Inr (Some r, None)) \<and>
             map sint r = concat (map item_ints (Split spec '',''))"
proof -
  note v = NewIterator_valid [OF assms]
  from Parse_loop_collects [OF assms v(1), of "[]"]
  obtain r where r1: "Parse_loop (NewIterator spec) [] = Some (Inr r)"
     and r2: "map sint r = concat (map seq_ints (seqs (NewIterator spec)))"
    by auto
  have "fst (Err (NewIterator spec)) = None"
    using assms by (simp add: Err_def)
  then have "Parse spec = Some (Inr (Some r, None))"
    using r1 by (simp add: Parse_def)
  moreover have "map sint r = concat (map item_ints (Split spec '',''))"
    using r2 v(2) by simp
  ultimately show ?thesis by (intro exI conjI)
qed

lemma Parse_invalid:
  "err (NewIterator spec) = Some e \<Longrightarrow> Parse spec = Some (Inr (None, Some e))"
  by (simp add: Parse_def Err_def)

section \<open>Decimal literals and Atoi\<close>

lemma digits_val_mono: "n \<le> digits_val n cs"
proof (induction cs arbitrary: n)
  case Nil
  show ?case by simp
next
  case (Cons c cs)
  have "n \<le> n * 10 + (of_char c - 48)" by simp
  also have "\<dots> \<le> digits_val (n * 10 + (of_char c - 48)) cs" by (rule Cons.IH)
  finally show ?case by simp
qed

lemma ParseUint_step:
  fixes n :: "64 word"
  assumes "d \<le> 9"
  shows "cutoff \<le> n \<Longrightarrow> 2 ^ 64 \<le> unat n * 10 + d"
    and "\<not> cutoff \<le> n \<Longrightarrow> n * 10 + of_nat d < n * 10 \<Longrightarrow> 2 ^ 64 \<le> unat n * 10 + d"
    and "\<not> cutoff \<le> n \<Longrightarrow> \<not> n * 10 + of_nat d < n * 10 \<Longrightarrow>
           unat (n * 10 + of_nat d) = unat n * 10 + d"
    and "\<not> maxVal < n * 10 + of_nat d"
proof -
  have "unat (n * 10 + of_nat d) < 2 ^ LENGTH(64)"
    by (rule unsigned_less)
  then have "unat (n * 10 + of_nat d) < 2 ^ 64" by simp
  then show "\<not> maxVal < n * 10 + of_nat d"
    by (simp add: maxVal_def word_less_nat_alt)
  show "cutoff \<le> n \<Longrightarrow> 2 ^ 64 \<le> unat n * 10 + d"
    by (simp add: cutoff_def word_le_nat_alt)
  assume "\<not> cutoff \<le> n"
  then have small: "unat n \<le> 1844674407370955161"
    by (simp add: cutoff_def word_le_nat_alt)
  have u10: "unat (n * 10) = unat n * 10"
    using small by (simp add: unat_word_ariths)
  have ud: "unat (of_nat d :: 64 word) = d"
    using assms by (simp add: unat_of_nat)
  have sum: "unat (n * 10 + of_nat d) = (unat n * 10 + d) mod 2 ^ 64"
    using u10 ud by (simp add: unat_word_ariths)
  show "n * 10 + of_nat d < n * 10 \<Longrightarrow> 2 ^ 64 \<le> unat n * 10 + d"
  proof (rule ccontr)
    assume lt: "n * 10 + of_nat d < n * 10" and "\<not> 2 ^ 64 \<le> unat n * 10 + d"
    then have "unat (n * 10 + of_nat d) = unat n * 10 + d" using sum by simp
    with lt u10 show False by (simp add: word_less_nat_alt)
  qed
  show "\<not> n * 10 + of_nat d < n * 10 \<Longrightarrow> unat (n * 10 + of_nat d) = unat n * 10 + d"
  proof -
    assume nlt: "\<not> n * 10 + of_nat d < n * 10"
    have "unat n * 10 + d < 2 ^ 64"
    proof (rule ccontr)
      assume "\<not> unat n * 10 + d < 2 ^ 64"
      then have ge: "2 ^ 64 \<le> unat n * 10 + d" by simp
      have "unat n * 10 + d < 2 * 2 ^ 64" using small assms by simp
      with ge have "(unat n * 10 + d) mod 2 ^ 64 = unat n * 10 + d - 2 ^ 64"
        by (simp add: mod_if)
      with sum have "unat (n * 10 + of_nat d) < unat (n * 10)"
        using u10 assms ge by simp
      with nlt show False by (simp add: word_less_nat_alt)
    qed
    with sum show ?thesis by simp
  qed
qed


lemma ParseUint_loop_Cons:
  "ParseUint_loop n (c # cs) =
     (if \<not> digit c then Inl ErrSyntax
      else if cutoff \<le> n then Inl ErrRange
      else if n * 10 + of_nat (of_char c - 48) < n * 10
              \<or> maxVal < n * 10 + of_nat (of_char c - 48) then Inl ErrRange
      else ParseUint_loop (n * 10 + of_nat (of_char c - 48)) cs)"
  by (simp only: ParseUint_loop.simps digit_def Let_def not_le not_less de_Morgan_conj)

lemma ParseUint_loop_overflow:
  assumes "digit c" and "\<not> unat n * 10 + (of_char c - 48) < 2 ^ 64"
  shows "ParseUint_loop n (c # cs) = Inl ErrRange"
proof -
  define d :: nat where "d = of_char c - 48"
  have d: "d \<le> 9" using assms(1) by (auto simp: digit_def d_def)
  have big: "\<not> unat n * 10 + d < 2 ^ 64" unfolding d_def by (rule assms(2))
  have "cutoff \<le> n \<or> n * 10 + of_nat d < n * 10"
  proof (rule ccontr)
    assume "\<not> (cutoff \<le> n \<or> n * 10 + of_nat d < n * 10)"
    then have "unat (n * 10 + of_nat d) = unat n * 10 + d"
      using ParseUint_step(3) [OF d, of n] by blast
    moreover have "unat (n * 10 + of_nat d) < 2 ^ LENGTH(64)" by (rule unsigned_less)
    ultimately show False using big by simp
  qed
  then show ?thesis
    using assms(1) unfolding ParseUint_loop_Cons [of n c cs] d_def [symmetric] by auto
qed

lemma ParseUint_loop_digit:
  assumes "digit c" and "unat n * 10 + (of_char c - 48) < 2 ^ 64"
  shows "\<exists>n'. unat n' = unat n * 10 + (of_char c - 48) \<and>
              ParseUint_loop n (c # cs) = ParseUint_loop n' cs"
proof -
  define d :: nat where "d = of_char c - 48"
  have d: "d \<le> 9" using assms(1) by (auto simp: digit_def d_def)
  have small: "unat n * 10 + d < 2 ^ 64" unfolding d_def by (rule assms(2))
  have 1: "\<not> cutoff \<le> n" using ParseUint_step(1) [OF d, of n] small by auto
  have 2: "\<not> n * 10 + of_nat d < n * 10" using ParseUint_step(2) [OF d 1] small by auto
  have 3: "unat (n * 10 + of_nat d) = unat n * 10 + d" using d 1 2 by (rule ParseUint_step(3))
  have 4: "\<not> maxVal < n * 10 + of_nat d" using d by (rule ParseUint_step(4))
  have "ParseUint_loop n (c # cs) = ParseUint_loop (n * 10 + of_nat d) cs"
    using assms(1) 1 2 4 unfolding ParseUint_loop_Cons [of n c cs] d_def [symmetric]
    by simp
  with 3 show ?thesis unfolding d_def by blast
qed


lemma ParseUint_loop_digits:
  "\<forall>c \<in> set ds. digit c \<Longrightarrow>
   ParseUint_loop n ds =
     (if digits_val (unat n) ds < 2 ^ 64 then Inr (of_nat (digits_val (unat n) ds))
      else Inl ErrRange)"
proof (induction ds arbitrary: n)
  case Nil
  have "unat n < 2 ^ LENGTH(64)" by (rule unsigned_less)
  then show ?case by simp
next
  case (Cons c cs)
  let ?m = "unat n * 10 + (of_char c - 48)"
  have c: "digit c" and cs: "\<forall>c \<in> set cs. digit c" using Cons.prems by simp_all
  show ?case
  proof (cases "?m < 2 ^ 64")
    case True
    then obtain n' where n': "unat n' = ?m" "ParseUint_loop n (c # cs) = ParseUint_loop n' cs"
      using ParseUint_loop_digit [OF c, of n cs] by blast
    show ?thesis
      unfolding n'(2) Cons.IH [OF cs, of n'] n'(1) by simp
  next
    case False
    then have "\<not> digits_val ?m cs < 2 ^ 64"
      using digits_val_mono [of ?m cs] by simp
    then show ?thesis
      unfolding ParseUint_loop_overflow [OF c False] by simp
  qed
qed



lemma digit_not_sign: "digit c \<Longrightarrow> c \<noteq> CHR ''+'' \<and> c \<noteq> CHR ''-''"
  by (auto simp: digit_def)

lemma ParseUint_digits:
  assumes "ds \<noteq> []" and "\<forall>c \<in> set ds. digit c"
  shows "ParseUint ds =
     (if digits_val 0 ds < 2 ^ 64 then Inr (of_nat (digits_val 0 ds)) else Inl ErrRange)"
  using assms ParseUint_loop_digits [of ds 0] by (simp add: ParseUint_def)


lemma word_of_nat_le_iff:
  assumes "v < 2 ^ 64"
  shows "(9223372036854775808 \<le> (of_nat v :: 64 word)) = (2 ^ 63 \<le> v)"
    and "(9223372036854775808 < (of_nat v :: 64 word)) = (2 ^ 63 < v)"
  using assms by (simp_all add: word_le_nat_alt word_less_nat_alt unat_of_nat_64)

lemma ParseInt_Cons:
  "ParseInt (c # cs) =
     (case ParseUint (if c = CHR ''+'' \<or> c = CHR ''-'' then cs else c # cs) of
        Inl k \<Rightarrow> Inl k
      | Inr un \<Rightarrow>
          if c \<noteq> CHR ''-'' \<and> 9223372036854775808 \<le> un then Inl ErrRange
          else if c = CHR ''-'' \<and> 9223372036854775808 < un then Inl ErrRange
          else Inr (if c = CHR ''-'' then - un else un))"
  by (simp add: ParseInt_def maxVal_def Let_def split: sum.splits num_err.splits)

lemma ParseInt_unsigned:
  assumes "ds \<noteq> []" and "\<forall>c \<in> set ds. digit c"
  shows "ParseInt ds =
     (if digits_val 0 ds < 2 ^ 63 then Inr (of_nat (digits_val 0 ds)) else Inl ErrRange)"
proof -
  obtain c cs where ds: "ds = c # cs" using assms(1) by (cases ds) auto
  then have c: "c \<noteq> CHR ''+''" "c \<noteq> CHR ''-''" using assms(2) digit_not_sign by auto
  have "ParseInt ds =
     (case ParseUint ds of Inl k \<Rightarrow> Inl k
      | Inr un \<Rightarrow> if 9223372036854775808 \<le> un then Inl ErrRange else Inr un)"
    unfolding ds ParseInt_Cons using c by (simp split: sum.splits)
  then show ?thesis
    unfolding ParseUint_digits [OF assms]
    by (simp add: word_of_nat_le_iff)
qed

lemma ParseInt_plus:
  assumes "ds \<noteq> []" and "\<forall>c \<in> set ds. digit c"
  shows "ParseInt (CHR ''+'' # ds) =
     (if digits_val 0 ds < 2 ^ 63 then Inr (of_nat (digits_val 0 ds)) else Inl ErrRange)"
proof -
  have "ParseInt (CHR ''+'' # ds) =
     (case ParseUint ds of Inl k \<Rightarrow> Inl k
      | Inr un \<Rightarrow> if 9223372036854775808 \<le> un then Inl ErrRange else Inr un)"
    unfolding ParseInt_Cons by (simp split: sum.splits)
  then show ?thesis
    unfolding ParseUint_digits [OF assms]
    by (simp add: word_of_nat_le_iff)
qed




lemma Atoi_unsigned:
  assumes "ds \<noteq> []" and "\<forall>c \<in> set ds. digit c"
  shows "Atoi ds =
     (if digits_val 0 ds < 2 ^ 63 then Inr (of_nat (digits_val 0 ds))
      else Inl (NumError ''Atoi'' ds ErrRange))"
  by (simp add: Atoi_def ParseInt_unsigned [OF assms])

lemma Atoi_plus:
  assumes "ds \<noteq> []" and "\<forall>c \<in> set ds. digit c"
  shows "Atoi (CHR ''+'' # ds) =
     (if digits_val 0 ds < 2 ^ 63 then Inr (of_nat (digits_val 0 ds))
      else Inl (NumError ''Atoi'' (CHR ''+'' # ds) ErrRange))"
  by (simp add: Atoi_def ParseInt_plus [OF assms])





lemma sint_of_nat_small:
  assumes "v < 2 ^ 63"
  shows "sint (of_nat v :: go_int) = int v"
proof -
  have "signed_take_bit 63 (int v) = int v"
    using assms by (simp add: signed_take_bit_int_eq_self)
  then show ?thesis by (simp add: signed_of_nat)
qed

section \<open>Worked examples\<close>

lemmas eval_defs = NewIterator_def Split_def item_seq_def item_ints_def Atoi_def ParseInt_def
  ParseUint_def cutoff_def maxVal_def word_sless_alt word_le_nat_alt word_less_nat_alt Let_def

lemma NewIterator_two_ranges:
  "NewIterator ''-1...2,6...4'' =
     \<lparr>seqs = [\<lparr>next_v = - 1, last_v = 2, step = 1\<rparr>, \<lparr>next_v = 6, last_v = 4, step = - 1\<rparr>],
      err = None\<rparr>"
  by (simp add: eval_defs)

lemma NewIterator_mixed:
  "NewIterator ''1...3,7,5...3,9'' =
     \<lparr>seqs = [\<lparr>next_v = 1, last_v = 3, step = 1\<rparr>, \<lparr>next_v = 7, last_v = 7, step = 0\<rparr>,
              \<lparr>next_v = 5, last_v = 3, step = - 1\<rparr>, \<lparr>next_v = 9, last_v = 9, step = 0\<rparr>],
      err = None\<rparr>"
  by (simp add: eval_defs)

lemma item_ints_mixed:
  "concat (map item_ints (Split ''1...3,7,5...3,9'' '','')) = [1, 2, 3, 7, 5, 4, 3, 9]"
  by (simp add: eval_defs run_ints_def upto.simps)

lemma NewIterator_non_integer:
  "NewIterator ''2.3'' = \<lparr>seqs = [], err = Some (NumError ''Atoi'' ''2.3'' ErrSyntax)\<rparr>"
  by (simp add: eval_defs)

lemma NewIterator_single:
  "NewIterator ''5'' = \<lparr>seqs = [\<lparr>next_v = 5, last_v = 5, step = 0\<rparr>], err = None\<rparr>"
  by (simp add: eval_defs)

lemma NewIterator_plus:
  "NewIterator ''+5'' = \<lparr>seqs = [\<lparr>next_v = 5, last_v = 5, step = 0\<rparr>], err = None\<rparr>"
  by (simp add: eval_defs)

section \<open>The claims\<close>

text \<open>
  C1. For every valid specification (one that \<open>NewIterator\<close> accepts), \<open>Parse\<close>
  returns, with a nil error, the integers that the items denote, in the left-to-right
  order of the items: the values of the result are the concatenation of
  \<open>item_ints\<close> over the items, where a range item \<open>a...b\<close> denotes
  \<open>[a, a+1, ..., b]\<close> when \<open>a \<le> b\<close> and \<open>[a, a-1, ..., b]\<close> when \<open>a > b\<close>
  (\<open>run_ints\<close>). In particular \<open>Parse("-1...2,6...4")\<close> returns
  \<open>[-1, 0, 1, 2, 6, 5, 4]\<close> and no error.
\<close>

theorem Parse_emits_items_in_order:
  "(err (NewIterator spec) = None \<longrightarrow>
      (\<exists>r. Parse spec = Some (Inr (Some r, None)) \<and>
           map sint r = concat (map item_ints (Split spec '','')))) \<and>
   Parse ''-1...2,6...4'' = Some (Inr (Some [- 1, 0, 1, 2, 6, 5, 4], None))"
proof
  show "err (NewIterator spec) = None \<longrightarrow>
      (\<exists>r. Parse spec = Some (Inr (Some r, None)) \<and>
           map sint r = concat (map item_ints (Split spec '','')))"
    using Parse_valid by blast
  show "Parse ''-1...2,6...4'' = Some (Inr (Some [- 1, 0, 1, 2, 6, 5, 4], None))"
    by (simp add: Parse_def Err_def NewIterator_two_ranges Parse_loop.simps Next_def)
qed

theorem Parse_emits_items_in_order_witness:
  "err (NewIterator ''1...3,7,5...3,9'') = None \<and>
   (\<exists>r. Parse ''1...3,7,5...3,9'' = Some (Inr (Some r, None)) \<and>
        map sint r = [1, 2, 3, 7, 5, 4, 3, 9])"
proof -
  have h: "err (NewIterator ''1...3,7,5...3,9'') = None"
    by (simp add: NewIterator_mixed)
  show ?thesis
    using h Parse_emits_items_in_order [of "''1...3,7,5...3,9''"]
    by (simp add: item_ints_mixed)
qed

text \<open>
  C2. For every specification string \<open>Parse\<close> returns (it neither panics nor runs
  forever), and what it returns is one of two things: the slice of all the integers
  that the items denote together with a nil error, when \<open>NewIterator\<close> recorded
  no error; or the nil slice together with the error that \<open>NewIterator\<close> recorded.
  It never returns a slice and an error together, and no slice at all on an error.
\<close>

theorem Parse_sequence_or_error:
  "(\<exists>r. Parse spec = Some (Inr (Some r, None)) \<and> err (NewIterator spec) = None \<and>
        map sint r = concat (map item_ints (Split spec '',''))) \<or>
   (\<exists>f n k. Parse spec = Some (Inr (None, Some (NumError f n k))) \<and>
        err (NewIterator spec) = Some (NumError f n k))"
proof (cases "err (NewIterator spec)")
  case None
  then show ?thesis using Parse_valid by blast
next
  case (Some e)
  then obtain f n k where "e = NumError f n k"
    using NewIterator_error(3) by blast
  then show ?thesis using Some Parse_invalid by blast
qed

text \<open>
  C3. \<open>Next\<close> on an iterator whose error slot holds a validation failure (a
  \<open>NumError\<close>, which is what \<open>NewIterator\<close> records) panics with the message
  "Next() called on invalid iterator."; \<open>Next\<close> on the iterator that a previous
  call left after returning \<open>ErrDone\<close> panics with the message
  "Next() called again after returning ErrDone.". The two messages differ, and a
  panic (\<open>Inl\<close>) is not a returned pair of value and error (\<open>Inr\<close>).
\<close>

theorem Next_misuse_panics:
  "(err i = Some (NumError f n k) \<longrightarrow> Next i = Inl ''Next() called on invalid iterator.'') \<and>
   (err (NewIterator spec) = Some e \<longrightarrow>
      Next (NewIterator spec) = Inl ''Next() called on invalid iterator.'') \<and>
   (Next j = Inr ((v, Some ErrDone), j') \<longrightarrow>
      Next j' = Inl ''Next() called again after returning ErrDone.'') \<and>
   ''Next() called on invalid iterator.'' \<noteq> ''Next() called again after returning ErrDone.''"
proof (intro conjI impI)
  show "Next i = Inl ''Next() called on invalid iterator.''" if "err i = Some (NumError f n k)"
    using that by (simp add: Next_invalid)
  show "Next (NewIterator spec) = Inl ''Next() called on invalid iterator.''"
    if h: "err (NewIterator spec) = Some e"
  proof -
    obtain f n k where "e = NumError f n k" using h NewIterator_error(3) by blast
    then show ?thesis using h by (simp add: Next_invalid)
  qed
  show "Next j' = Inl ''Next() called again after returning ErrDone.''"
    if "Next j = Inr ((v, Some ErrDone), j')"
  proof -
    have "err j' = Some ErrDone" using Next_returns(2) [OF that] by simp
    then show ?thesis by (rule Next_after_done)
  qed
  show "''Next() called on invalid iterator.'' \<noteq> ''Next() called again after returning ErrDone.''"
    by simp
qed

theorem Next_misuse_panics_witness:
  "err (NewIterator ''2.3'') = Some (NumError ''Atoi'' ''2.3'' ErrSyntax) \<and>
   Next (NewIterator ''2.3'') = Inl ''Next() called on invalid iterator.'' \<and>
   Next (NewIterator []) = Inr ((0, Some ErrDone), \<lparr>seqs = [], err = Some ErrDone\<rparr>) \<and>
   Next \<lparr>seqs = [], err = Some ErrDone\<rparr> = Inl ''Next() called again after returning ErrDone.''"
proof -
  have h1: "err (NewIterator ''2.3'') = Some (NumError ''Atoi'' ''2.3'' ErrSyntax)"
    by (simp add: NewIterator_non_integer)
  have h2: "Next (NewIterator []) = Inr ((0, Some ErrDone), \<lparr>seqs = [], err = Some ErrDone\<rparr>)"
    by (simp add: NewIterator_empty Next_def)
  show ?thesis
    using h1 h2
      Next_misuse_panics [of "NewIterator ''2.3''" "''Atoi''" "''2.3''" ErrSyntax "''2.3''"
        "NumError ''Atoi'' ''2.3'' ErrSyntax" "NewIterator []" 0
        "\<lparr>seqs = [], err = Some ErrDone\<rparr>"]
    by simp
qed




text \<open>
  C5. The empty specification gives a ready iterator with no descriptor and no error,
  and \<open>Parse("")\<close> returns the empty slice, which is not the nil slice, and a nil
  error. The empty item is a syntax error everywhere else: in a specification other
  than \<open>""\<close> that has an empty item, as consecutive commas give one, construction
  fails and keeps no descriptor, and the recorded error is the syntax error of the
  empty item when the items before it are accepted (an item before it that fails is
  recorded instead, being the first).
\<close>

theorem empty_specification:
  "NewIterator [] = \<lparr>seqs = [], err = None\<rparr> \<and>
   Parse [] = Some (Inr (Some [], None)) \<and>
   item_seq [] = Inl (NumError ''Atoi'' [] ErrSyntax) \<and>
   (spec \<noteq> [] \<and> Split spec '','' = pre @ [] # post \<longrightarrow>
      (\<exists>e. NewIterator spec = \<lparr>seqs = [], err = Some e\<rparr>) \<and>
      ((\<forall>i \<in> set pre. \<exists>d. item_seq i = Inr d) \<longrightarrow>
         NewIterator spec = \<lparr>seqs = [], err = Some (NumError ''Atoi'' [] ErrSyntax)\<rparr>))"
proof (intro conjI impI; (elim conjE)?)
  show "NewIterator [] = \<lparr>seqs = [], err = None\<rparr>"
    by (rule NewIterator_empty)
  show "Parse [] = Some (Inr (Some [], None))"
    by (simp add: Parse_def Err_def NewIterator_empty Parse_loop.simps Next_def)
  show "item_seq [] = Inl (NumError ''Atoi'' [] ErrSyntax)"
    by (rule item_seq_empty)
next
  assume a: "spec \<noteq> []" "Split spec '','' = pre @ [] # post"
  show "\<exists>e. NewIterator spec = \<lparr>seqs = [], err = Some e\<rparr>"
  proof (cases "err (NewIterator spec)")
    case None
    obtain s x where l: "NewIterator_loop (Split spec '','') [] = (s, x)"
      by (cases "NewIterator_loop (Split spec '','') []")
    then have "x = None" using None by (simp add: NewIterator_nonempty [OF a(1)])
    then obtain ds where "list_all2 (\<lambda>i d. item_seq i = Inr d) (Split spec '','') ds"
      using l NewIterator_loop_None by blast
    then have "\<forall>i \<in> set (Split spec '',''). \<exists>d. item_seq i = Inr d"
      by (auto simp: list_all2_conv_all_nth in_set_conv_nth)
    then have "\<exists>d. item_seq [] = Inr d" using a(2) by simp
    then show ?thesis by (simp add: item_seq_empty)
  next
    case (Some e)
    then show ?thesis using NewIterator_error(1) by blast
  qed
  show "NewIterator spec = \<lparr>seqs = [], err = Some (NumError ''Atoi'' [] ErrSyntax)\<rparr>"
    if "\<forall>i \<in> set pre. \<exists>d. item_seq i = Inr d"
    using a that item_seq_empty by (rule NewIterator_first_error)
qed

theorem empty_specification_witness:
  "''1,,2'' \<noteq> [] \<and> Split ''1,,2'' '','' = [''1''] @ [] # [''2''] \<and>
   item_seq ''1'' = Inr \<lparr>next_v = 1, last_v = 1, step = 0\<rparr> \<and>
   NewIterator ''1,,2'' = \<lparr>seqs = [], err = Some (NumError ''Atoi'' [] ErrSyntax)\<rparr>"
proof -
  have h1: "Split ''1,,2'' '','' = [''1''] @ [] # [''2'']"
    by (simp add: Split_def)
  have h2: "item_seq ''1'' = Inr \<lparr>next_v = 1, last_v = 1, step = 0\<rparr>"
    by (simp add: eval_defs)
  show ?thesis
    using h1 h2 empty_specification [of "''1,,2''" "[''1'']" "[''2'']"] by simp
qed

text \<open>
  C6. For an item of two pieces \<open>a...b\<close> that both parse, the descriptor is
  \<open>next = a\<close>, \<open>last = b\<close>, with \<open>step = +1\<close> if \<open>a\<close> is strictly less than
  \<open>b\<close> (as signed integers) and \<open>step = -1\<close> otherwise. When the endpoints are
  equal the step is \<open>-1\<close>, the descriptor denotes the one value \<open>a\<close>, and one call
  of \<open>Next\<close> emits \<open>a\<close> and removes the descriptor.
\<close>

theorem range_step_direction:
  "Split item ''...'' = [p, q] \<and> Atoi p = Inr a \<and> Atoi q = Inr b \<longrightarrow>
     item_seq item =
       Inr \<lparr>next_v = a, last_v = b, step = (if sint a < sint b then 1 else - 1)\<rparr> \<and>
     (a = b \<longrightarrow>
        item_seq item = Inr \<lparr>next_v = a, last_v = a, step = - 1\<rparr> \<and>
        seq_ints \<lparr>next_v = a, last_v = a, step = - 1\<rparr> = [sint a] \<and>
        Next \<lparr>seqs = \<lparr>next_v = a, last_v = a, step = - 1\<rparr> # rest, err = None\<rparr> =
          Inr ((a, None), \<lparr>seqs = rest, err = None\<rparr>))"
  by (simp add: item_seq_two word_sless_alt seq_ints_done Next_def)

theorem range_step_direction_witness:
  "Split ''3...3'' ''...'' = [''3'', ''3''] \<and> Atoi ''3'' = Inr 3 \<and>
   item_seq ''3...3'' = Inr \<lparr>next_v = 3, last_v = 3, step = - 1\<rparr> \<and>
   seq_ints \<lparr>next_v = 3, last_v = 3, step = - 1\<rparr> = [3] \<and>
   Next \<lparr>seqs = [\<lparr>next_v = 3, last_v = 3, step = - 1\<rparr>], err = None\<rparr> =
     Inr ((3, None), \<lparr>seqs = [], err = None\<rparr>)"
proof -
  have h1: "Split ''3...3'' ''...'' = [''3'', ''3'']"
    by (simp add: Split_def)
  have h2: "Atoi ''3'' = Inr 3"
    by (simp add: eval_defs)
  show ?thesis
    using h1 h2 range_step_direction [of "''3...3''" "''3''" "''3''" 3 3 "[]"] by simp
qed

text \<open>
  C7. Once the error slot holds an error, a validation failure or \<open>ErrDone\<close>, no
  sequence of calls of \<open>Next\<close> and \<open>Err\<close> changes the iterator, so the slot keeps
  its value: the states invalid and done are absorbing. From the state ready a call
  leads to ready or to done, never to invalid. \<open>Err\<close> returns the slot and leaves
  the iterator as it is.
\<close>

theorem error_slot_absorbing:
  "(err i \<noteq> None \<longrightarrow> after_calls cs i = i \<and> err (after_calls cs i) = err i) \<and>
   (phase_of i \<noteq> Ready \<longrightarrow> phase_of (after_calls cs i) = phase_of i) \<and>
   (phase_of j = Ready \<longrightarrow>
      phase_of (after_call c j) = Ready \<or> phase_of (after_call c j) = Done) \<and>
   Err i = (err i, i)"
proof (intro conjI impI)
  show "after_calls cs i = i" if "err i \<noteq> None"
    using that by (rule after_calls_absorbing)
  then show "err (after_calls cs i) = err i" if "err i \<noteq> None"
    using that by simp
  show "phase_of (after_calls cs i) = phase_of i" if "phase_of i \<noteq> Ready"
    using that by (simp add: after_calls_absorbing phase_of_not_Ready)
  show "phase_of (after_call c j) = Ready \<or> phase_of (after_call c j) = Done"
    if "phase_of j = Ready"
    using that by (rule phase_of_after_call)
  show "Err i = (err i, i)"
    by (simp add: Err_def)
qed

theorem error_slot_absorbing_witness:
  "err \<lparr>seqs = [], err = Some ErrDone\<rparr> \<noteq> None \<and>
   phase_of \<lparr>seqs = [], err = Some ErrDone\<rparr> = Done \<and>
   after_calls [CallNext, CallErr, CallNext] \<lparr>seqs = [], err = Some ErrDone\<rparr> =
     \<lparr>seqs = [], err = Some ErrDone\<rparr> \<and>
   phase_of (NewIterator []) = Ready \<and>
   phase_of (after_call CallNext (NewIterator [])) = Done"
proof -
  have h1: "phase_of \<lparr>seqs = [], err = Some ErrDone\<rparr> = Done"
    by (simp add: phase_of_def)
  have h2: "phase_of (NewIterator []) = Ready"
    by (simp add: phase_of_def NewIterator_empty)
  have h3: "phase_of (after_call CallNext (NewIterator [])) \<noteq> Ready"
    by (simp add: phase_of_def NewIterator_empty after_call_def Next_def)
  show ?thesis
    using h1 h2 h3
      error_slot_absorbing [of "\<lparr>seqs = [], err = Some ErrDone\<rparr>"
        "[CallNext, CallErr, CallNext]" "NewIterator []" CallNext]
    by simp
qed

text \<open>
  C8. As the claim states it, every descriptor has a step of \<open>+1\<close> or \<open>-1\<close>. The
  descriptor of a single integer does not: \<open>NewIterator\<close> leaves its \<open>step\<close> at
  the zero value of \<open>int\<close>, as the descriptor that \<open>NewIterator("5")\<close> holds shows.
\<close>

theorem descriptor_step_counterexample:
  "seqs (NewIterator ''5'') = [\<lparr>next_v = 5, last_v = 5, step = 0\<rparr>] \<and>
   step (seqs (NewIterator ''5'') ! 0) \<noteq> 1 \<and>
   step (seqs (NewIterator ''5'') ! 0) \<noteq> - 1"
  by (simp add: NewIterator_single)

text \<open>
  C8, amended. Every descriptor that an iterator holds, after construction and after
  any calls, satisfies \<open>seq_ok\<close>: its step is \<open>+1\<close> with \<open>next \<le> last\<close>, or
  \<open>-1\<close> with \<open>next \<ge> last\<close>, or \<open>0\<close> with \<open>next = last\<close>. A single-integer
  item gives \<open>next = last\<close> and the step \<open>0\<close>; a range item gives the step \<open>+1\<close>
  or \<open>-1\<close>. A call of \<open>Next\<close> on a descriptor with \<open>next = last\<close> emits
  \<open>next\<close> and removes the descriptor, whatever its step is: the step is not read. On
  a descriptor with \<open>next \<noteq> last\<close> it emits \<open>next\<close> and changes only the field
  \<open>next\<close>, by \<open>step\<close>, which is \<open>+1\<close> or \<open>-1\<close> there, without wrap-around and
  one closer to \<open>last\<close>; \<open>last\<close> and \<open>step\<close> stay as they are.
\<close>

theorem descriptor_invariant:
  "(\<forall>s \<in> set (seqs (after_calls cs (NewIterator spec))). seq_ok s) \<and>
   (Split item ''...'' = [p] \<and> Atoi p = Inr v \<longrightarrow>
      item_seq item = Inr \<lparr>next_v = v, last_v = v, step = 0\<rparr>) \<and>
   (Split item' ''...'' = [p', q'] \<and> item_seq item' = Inr d \<longrightarrow>
      step d = 1 \<or> step d = - 1) \<and>
   (err i = None \<and> seqs i = s # rest \<and> next_v s = last_v s \<longrightarrow>
      Next i = Inr ((next_v s, None), i\<lparr>seqs := rest\<rparr>) \<and>
      Next (i\<lparr>seqs := s\<lparr>step := k\<rparr> # rest\<rparr>) = Inr ((next_v s, None), i\<lparr>seqs := rest\<rparr>)) \<and>
   (err j = None \<and> seqs j = t # rest' \<and> seq_ok t \<and> next_v t \<noteq> last_v t \<longrightarrow>
      Next j = Inr ((next_v t, None), j\<lparr>seqs := t\<lparr>next_v := next_v t + step t\<rparr> # rest'\<rparr>) \<and>
      (step t = 1 \<or> step t = - 1) \<and>
      seq_ok (t\<lparr>next_v := next_v t + step t\<rparr>) \<and>
      sint (next_v t + step t) = sint (next_v t) + sint (step t) \<and>
      \<bar>sint (last_v t) - sint (next_v t + step t)\<bar> = \<bar>sint (last_v t) - sint (next_v t)\<bar> - 1)"
proof (intro conjI impI; (elim conjE)?)
  have "\<forall>s \<in> set (seqs (NewIterator spec)). seq_ok s"
  proof (cases "err (NewIterator spec)")
    case None
    then show ?thesis by (rule NewIterator_valid(1))
  next
    case (Some e)
    then show ?thesis using NewIterator_error(1) [OF Some] by simp
  qed
  then show "\<forall>s \<in> set (seqs (after_calls cs (NewIterator spec))). seq_ok s"
    by (rule after_calls_seq_ok)
next
  assume "Split item ''...'' = [p]" "Atoi p = Inr v"
  then show "item_seq item = Inr \<lparr>next_v = v, last_v = v, step = 0\<rparr>"
    by (simp add: item_seq_one)
next
  assume "Split item' ''...'' = [p', q']" "item_seq item' = Inr d"
  then show "step d = 1 \<or> step d = - 1"
    by (auto simp: item_seq_two split: sum.splits if_splits)
next
  assume a: "err i = None" "seqs i = s # rest" "next_v s = last_v s"
  show "Next i = Inr ((next_v s, None), i\<lparr>seqs := rest\<rparr>)"
    using a by (rule Next_last)
  show "Next (i\<lparr>seqs := s\<lparr>step := k\<rparr> # rest\<rparr>) = Inr ((next_v s, None), i\<lparr>seqs := rest\<rparr>)"
    using a by (simp add: Next_def)
next
  assume a: "err j = None" "seqs j = t # rest'" "seq_ok t" "next_v t \<noteq> last_v t"
  show "Next j = Inr ((next_v t, None), j\<lparr>seqs := t\<lparr>next_v := next_v t + step t\<rparr> # rest'\<rparr>)"
    using a(1,2,4) by (rule Next_more)
  show "seq_ok (t\<lparr>next_v := next_v t + step t\<rparr>)"
    using a(3,4) by (rule seq_step_ok(1))
  from a(3,4) have m: "(step t = 1 \<or> step t = - 1) \<and>
      sint (next_v t + step t) = sint (next_v t) + sint (step t) \<and>
      \<bar>sint (last_v t) - sint (next_v t + step t)\<bar> = \<bar>sint (last_v t) - sint (next_v t)\<bar> - 1"
  proof (cases rule: seq_ok_cases)
    case up
    have "sint (next_v t) < sint (last_v t)" using up(1) by (simp add: word_sless_alt)
    then show ?thesis using up(2) seq_step_up(3) [OF up] by simp
  next
    case down
    have "sint (last_v t) < sint (next_v t)" using down(1) by (simp add: word_sless_alt)
    then show ?thesis using down(2) seq_step_down(3) [OF down] by simp
  qed
  from m show "step t = 1 \<or> step t = - 1" by (rule conjunct1)
  from m show "sint (next_v t + step t) = sint (next_v t) + sint (step t)" by blast
  from m show "\<bar>sint (last_v t) - sint (next_v t + step t)\<bar> =
      \<bar>sint (last_v t) - sint (next_v t)\<bar> - 1" by blast
qed

theorem descriptor_invariant_witness:
  "after_calls [CallNext, CallErr] (NewIterator ''1...3,7'') =
     \<lparr>seqs = [\<lparr>next_v = 2, last_v = 3, step = 1\<rparr>, \<lparr>next_v = 7, last_v = 7, step = 0\<rparr>],
      err = None\<rparr> \<and>
   seq_ok \<lparr>next_v = 2, last_v = 3, step = 1\<rparr> \<and>
   seq_ok \<lparr>next_v = 7, last_v = 7, step = 0\<rparr> \<and>
   Split ''7'' ''...'' = [''7''] \<and> Atoi ''7'' = Inr 7 \<and>
   item_seq ''7'' = Inr \<lparr>next_v = 7, last_v = 7, step = 0\<rparr> \<and>
   Split ''6...4'' ''...'' = [''6'', ''4''] \<and>
   item_seq ''6...4'' = Inr \<lparr>next_v = 6, last_v = 4, step = - 1\<rparr> \<and>
   Next \<lparr>seqs = [\<lparr>next_v = 7, last_v = 7, step = 0\<rparr>], err = None\<rparr> =
     Inr ((7, None), \<lparr>seqs = [], err = None\<rparr>) \<and>
   Next \<lparr>seqs = [\<lparr>next_v = 7, last_v = 7, step = 1\<rparr>], err = None\<rparr> =
     Inr ((7, None), \<lparr>seqs = [], err = None\<rparr>) \<and>
   seq_ok \<lparr>next_v = 6, last_v = 4, step = - 1\<rparr> \<and>
   Next \<lparr>seqs = [\<lparr>next_v = 6, last_v = 4, step = - 1\<rparr>], err = None\<rparr> =
     Inr ((6, None), \<lparr>seqs = [\<lparr>next_v = 5, last_v = 4, step = - 1\<rparr>], err = None\<rparr>) \<and>
   seq_ok \<lparr>next_v = 5, last_v = 4, step = - 1\<rparr> \<and>
   sint (6 + - 1 :: go_int) = 5"
proof -
  have h1: "after_calls [CallNext, CallErr] (NewIterator ''1...3,7'') =
     \<lparr>seqs = [\<lparr>next_v = 2, last_v = 3, step = 1\<rparr>, \<lparr>next_v = 7, last_v = 7, step = 0\<rparr>],
      err = None\<rparr>"
    by (simp add: eval_defs after_calls_def after_call_def Next_def Err_def)
  have h2: "Split ''7'' ''...'' = [''7'']" "Atoi ''7'' = Inr 7"
    by (simp_all add: eval_defs)
  have h3: "Split ''6...4'' ''...'' = [''6'', ''4'']"
    "item_seq ''6...4'' = Inr \<lparr>next_v = 6, last_v = 4, step = - 1\<rparr>"
    by (simp_all add: eval_defs)
  have h4: "seq_ok \<lparr>next_v = 6, last_v = 4, step = - 1\<rparr>"
    by (simp add: seq_ok_def word_sle_eq)
  note t = descriptor_invariant
    [where cs = "[CallNext, CallErr]" and spec = "''1...3,7''"
       and item = "''7''" and p = "''7''" and v = 7
       and item' = "''6...4''" and p' = "''6''" and q' = "''4''"
       and d = "\<lparr>next_v = 6, last_v = 4, step = - 1\<rparr>"
       and i = "\<lparr>seqs = [\<lparr>next_v = 7, last_v = 7, step = 0\<rparr>], err = None\<rparr>"
       and s = "\<lparr>next_v = 7, last_v = 7, step = 0\<rparr>" and rest = "[]" and k = 1
       and j = "\<lparr>seqs = [\<lparr>next_v = 6, last_v = 4, step = - 1\<rparr>], err = None\<rparr>"
       and t = "\<lparr>next_v = 6, last_v = 4, step = - 1\<rparr>" and rest' = "[]"]
  show ?thesis
    using t h1 h2 h3 h4 by simp
qed

text \<open>
  C9. For every specification that \<open>NewIterator\<close> accepts, as many calls of
  \<open>Next\<close> as the items denote integers each return a value, these values are the
  denoted integers in order, and the call after them returns \<open>ErrDone\<close>. So the
  loop of \<open>Parse\<close> ends: for every specification string \<open>Parse\<close> returns, without
  a panic.
\<close>

theorem Next_terminates:
  "(\<exists>res. Parse spec = Some (Inr res)) \<and>
   (err (NewIterator spec) = None \<longrightarrow>
      (\<exists>vals i'.
         Next_calls (length (concat (map item_ints (Split spec '','')))) (NewIterator spec)
           = Some (vals, i') \<and>
         map sint vals = concat (map item_ints (Split spec '','')) \<and>
         Next i' = Inr ((0, Some ErrDone), i'\<lparr>err := Some ErrDone\<rparr>)))"
proof
  show "\<exists>res. Parse spec = Some (Inr res)"
  proof (cases "err (NewIterator spec)")
    case None
    then show ?thesis using Parse_valid by blast
  next
    case (Some e)
    then show ?thesis using Parse_invalid by blast
  qed
  show "err (NewIterator spec) = None \<longrightarrow>
      (\<exists>vals i'.
         Next_calls (length (concat (map item_ints (Split spec '','')))) (NewIterator spec)
           = Some (vals, i') \<and>
         map sint vals = concat (map item_ints (Split spec '','')) \<and>
         Next i' = Inr ((0, Some ErrDone), i'\<lparr>err := Some ErrDone\<rparr>))"
  proof
    assume a: "err (NewIterator spec) = None"
    note v = NewIterator_valid [OF a]
    obtain vals i' where
      r: "Next_calls (length (concat (map seq_ints (seqs (NewIterator spec)))))
            (NewIterator spec) = Some (vals, i')"
         "map sint vals = concat (map seq_ints (seqs (NewIterator spec)))"
         "seqs i' = []" "err i' = None"
      using Next_calls_collects [OF a v(1) refl] by blast
    have "Next i' = Inr ((0, Some ErrDone), i'\<lparr>err := Some ErrDone\<rparr>)"
      using r(4,3) by (rule Next_empty)
    then show "\<exists>vals i'.
         Next_calls (length (concat (map item_ints (Split spec '','')))) (NewIterator spec)
           = Some (vals, i') \<and>
         map sint vals = concat (map item_ints (Split spec '','')) \<and>
         Next i' = Inr ((0, Some ErrDone), i'\<lparr>err := Some ErrDone\<rparr>)"
      using r(1,2) unfolding v(2) by blast
  qed
qed

theorem Next_terminates_witness:
  "err (NewIterator ''1...3,7,5...3,9'') = None \<and>
   (\<exists>vals i'. Next_calls 8 (NewIterator ''1...3,7,5...3,9'') = Some (vals, i') \<and>
      map sint vals = [1, 2, 3, 7, 5, 4, 3, 9] \<and>
      Next i' = Inr ((0, Some ErrDone), i'\<lparr>err := Some ErrDone\<rparr>))"
proof -
  have h: "err (NewIterator ''1...3,7,5...3,9'') = None"
    by (simp add: NewIterator_mixed)
  have l: "length [1, 2, 3, 7, 5, 4, 3, 9 :: int] = 8"
    by simp
  from h Next_terminates [of "''1...3,7,5...3,9''"]
  have "\<exists>vals i'.
      Next_calls (length (concat (map item_ints (Split ''1...3,7,5...3,9'' '',''))))
        (NewIterator ''1...3,7,5...3,9'') = Some (vals, i') \<and>
      map sint vals = concat (map item_ints (Split ''1...3,7,5...3,9'' '','')) \<and>
      Next i' = Inr ((0, Some ErrDone), i'\<lparr>err := Some ErrDone\<rparr>)"
    by blast
  then show ?thesis
    using h unfolding item_ints_mixed l by blast
qed

text \<open>
  C10. A literal with a leading \<open>+\<close> is accepted: \<open>NewIterator("+5")\<close> succeeds
  and \<open>Parse("+5")\<close> returns \<open>[5]\<close> and no error. In general \<open>Atoi\<close> reads a
  string of digits after a \<open>+\<close> as it reads the digits alone.
\<close>

theorem plus_sign_accepted:
  "NewIterator ''+5'' = \<lparr>seqs = [\<lparr>next_v = 5, last_v = 5, step = 0\<rparr>], err = None\<rparr> \<and>
   Parse ''+5'' = Some (Inr (Some [5], None)) \<and>
   (ds \<noteq> [] \<and> (\<forall>c \<in> set ds. digit c) \<and> digits_val 0 ds < 2 ^ 63 \<longrightarrow>
      Atoi (CHR ''+'' # ds) = Inr (of_nat (digits_val 0 ds)) \<and>
      Atoi (CHR ''+'' # ds) = Atoi ds \<and>
      sint (of_nat (digits_val 0 ds) :: go_int) = int (digits_val 0 ds))"
proof (intro conjI impI; (elim conjE)?)
  show "NewIterator ''+5'' = \<lparr>seqs = [\<lparr>next_v = 5, last_v = 5, step = 0\<rparr>], err = None\<rparr>"
    by (rule NewIterator_plus)
  show "Parse ''+5'' = Some (Inr (Some [5], None))"
    by (simp add: Parse_def Err_def NewIterator_plus Parse_loop.simps Next_def)
next
  assume a: "ds \<noteq> []" "\<forall>c \<in> set ds. digit c" and b: "digits_val 0 ds < 2 ^ 63"
  show "Atoi (CHR ''+'' # ds) = Inr (of_nat (digits_val 0 ds))"
    using b by (simp add: Atoi_plus [OF a])
  show "Atoi (CHR ''+'' # ds) = Atoi ds"
    using b by (simp add: Atoi_plus [OF a] Atoi_unsigned [OF a])
  show "sint (of_nat (digits_val 0 ds) :: go_int) = int (digits_val 0 ds)"
    using b by (rule sint_of_nat_small)
qed

theorem plus_sign_accepted_witness:
  "digit (CHR ''1'') \<and> digit (CHR ''2'') \<and> digit (CHR ''3'') \<and> digit (CHR ''4'') \<and>
   digits_val 0 ''1234'' = 1234 \<and>
   Atoi ''+1234'' = Inr 1234 \<and> Atoi ''1234'' = Inr 1234 \<and> sint (1234 :: go_int) = 1234"
proof -
  have h1: "\<forall>c \<in> set ''1234''. digit c"
    by (simp add: digit_def)
  have h2: "digits_val 0 ''1234'' = 1234"
    by simp
  have h3: "(1234 :: nat) < 2 ^ 63"
    by simp
  from h1 h2 h3 plus_sign_accepted [of "''1234''"]
  have "Atoi ''+1234'' = Inr 1234 \<and> Atoi ''1234'' = Inr 1234"
    by auto
  then show ?thesis
    using h1 h2 by simp
qed

end
